theory Spec2Isabelle
  imports Main
begin

section \<open>The conversation store of \<open>src/06_sessions.py\<close>\<close>

text \<open>
  \<open>PostgreSQLSession\<close> keeps the turns of a chat in one PostgreSQL table,
  \<^verbatim>\<open>conversation_turns(session_id TEXT, idx SERIAL, payload JSONB,
  PRIMARY KEY (session_id, idx))\<close>, and reaches it through a lazily created
  \<open>asyncpg\<close> pool. The Python methods are embedded as functions that take the
  handle and the database and return the outcome together with the handle and the
  database as the call leaves them. An exception is the \<open>Inl\<close> of the outcome; the
  state beside it is the state the exception leaves behind.

  What the source imports is not part of it and is taken as given:
  \<^item> \<open>json.dumps\<close> and \<open>json.loads\<close> are parameters of the operations that use
    them (\<open>dumps\<close>, \<open>loads\<close>);
  \<^item> the conversion of a text to the type \<open>JSONB\<close> of the \<open>payload\<close> column belongs
    to the store: \<open>jsonb_in\<close> below says which texts the store accepts as a document and
    which text it gives back for the document it keeps;
  \<^item> the store executes exactly the four SQL statements that occur in the source; their
    meaning on the table is written out in \<open>pg_run\<close> below. The store is taken to be
    reachable, so creating a pool and sending a statement do not fail for network reasons.
\<close>

subsection \<open>The table\<close>

text \<open>
  A row. \<open>payload\<close> is a \<open>JSONB\<close> document; it is held as the text the store gives
  back for it when it is selected, which need not be the text that was inserted.
\<close>

record row =
  row_session_id :: string
  idx :: int
  payload :: string

text \<open>
  The statements the source sends (their SQL is quoted below, at \<open>num_params\<close>) and the
  arguments it binds to their placeholders: strings and integers.
\<close>

datatype stmt =
    SelectPayloads bool
  | InsertTurn
  | DeleteLastReturning
  | DeleteSession

datatype arg = AText string | AInt int

text \<open>
  \<open>seq_next\<close> is the value the sequence behind \<open>idx SERIAL\<close> hands out next.
  \<open>issued\<close> records every value it has handed out, oldest first, and \<open>stmt_log\<close>
  every statement the store has received; neither is read by any operation.
  \<open>jsonb_in\<close> is the store's input conversion for the type \<open>JSONB\<close>: \<open>None\<close> for a
  text it rejects (text that is not JSON, or JSON it cannot keep, such as a string with
  the escape of U+0000), and otherwise the text it gives back for the document, in its
  own normal form (a number written \<open>1e+23\<close> comes back written out in digits). No
  statement changes it.
\<close>

record db =
  table :: "row list"
  seq_next :: int
  issued :: "int list"
  stmt_log :: "(stmt \<times> arg list) list"
  jsonb_in :: "string \<Rightarrow> string option"

datatype pg_error =
    PoolClosed
  | WrongArgCount nat nat
  | BadArgument
  | Int8OutOfRange
  | NulInText
  | JsonbRejected
  | NegativeLimit
  | SequenceExhausted
  | UniqueViolation

text \<open>
  \<open>_ensure_schema\<close> runs the DDL on a server, whose \<open>JSONB\<close> input conversion is
  \<open>conv\<close>. \<open>CREATE TABLE IF NOT EXISTS\<close> creates an empty table, with a sequence
  that starts at 1, where there is none (\<open>None\<close>) and leaves an existing one as it is.
\<close>

definition ensure_schema :: "(string \<Rightarrow> string option) \<Rightarrow> db option \<Rightarrow> db" where
  "ensure_schema conv d = (case d of
       None \<Rightarrow> \<lparr>table = [], seq_next = 1, issued = [], stmt_log = [], jsonb_in = conv\<rparr>
     | Some t \<Rightarrow> t)"

subsection \<open>The statements\<close>

text \<open>
  The number of placeholders \<open>$1\<close>, \<open>$2\<close> of each statement:
  \<^item> \<open>SelectPayloads has_limit\<close> is
    \<^verbatim>\<open>SELECT payload FROM conversation_turns WHERE session_id = $1 ORDER BY idx ASC\<close>,
    followed by \<^verbatim>\<open>LIMIT $2\<close> when \<open>has_limit\<close>;
  \<^item> \<open>InsertTurn\<close> is
    \<^verbatim>\<open>INSERT INTO conversation_turns(session_id, payload) VALUES ($1, $2)\<close>;
  \<^item> \<open>DeleteLastReturning\<close> is
    \<^verbatim>\<open>DELETE FROM conversation_turns WHERE ctid = (SELECT ctid FROM conversation_turns
    WHERE session_id = $1 ORDER BY idx DESC LIMIT 1) RETURNING payload\<close>;
  \<^item> \<open>DeleteSession\<close> is \<^verbatim>\<open>DELETE FROM conversation_turns WHERE session_id = $1\<close>.
\<close>

fun num_params :: "stmt \<Rightarrow> nat" where
  "num_params (SelectPayloads has_limit) = (if has_limit then 2 else 1)"
| "num_params InsertTurn = 2"
| "num_params DeleteLastReturning = 1"
| "num_params DeleteSession = 1"

definition rows_of :: "string \<Rightarrow> row list \<Rightarrow> row list" where
  "rows_of sid t = filter (\<lambda>r. row_session_id r = sid) t"

text \<open>\<^verbatim>\<open>WHERE session_id = $1 ORDER BY idx ASC\<close>.\<close>

definition select_rows :: "string \<Rightarrow> row list \<Rightarrow> row list" where
  "select_rows sid t = sort_key idx (rows_of sid t)"

text \<open>
  A row's \<open>ctid\<close> is its physical place in the table: here its position in the list.
  The subquery of \<open>DeleteLastReturning\<close> yields the \<open>ctid\<close> of the session's row
  with the greatest \<open>idx\<close>, or no row.
\<close>

definition last_ctid :: "string \<Rightarrow> row list \<Rightarrow> nat option" where
  "last_ctid sid t =
     (case sort_key (\<lambda>cr. - idx (snd cr))
             (filter (\<lambda>cr. row_session_id (snd cr) = sid) (enumerate 0 t)) of
        [] \<Rightarrow> None
      | cr # _ \<Rightarrow> Some (fst cr))"

definition int4_max :: int where
  "int4_max = 2147483647"

text \<open>
  \<open>nextval\<close> of the sequence of a \<open>SERIAL\<close> column: an \<open>integer\<close> sequence without
  \<open>CYCLE\<close>, so it raises at its maximum instead of wrapping. A value handed out is
  never taken back, also when the statement that asked for it fails.
\<close>

definition nextval :: "db \<Rightarrow> (pg_error + int) \<times> db" where
  "nextval d =
     (if seq_next d > int4_max then (Inl SequenceExhausted, d)
      else (Inr (seq_next d),
            d\<lparr>seq_next := seq_next d + 1, issued := issued d @ [seq_next d]\<rparr>))"

text \<open>
  \<open>INSERT\<close> of one turn. The text \<open>j\<close> bound to \<open>$2\<close> is converted to \<open>JSONB\<close>
  when the arguments are bound, before the statement runs: a text the store rejects
  raises and takes no value from the sequence. The row keeps the document the store
  made of \<open>j\<close>, not \<open>j\<close> itself.
\<close>

definition insert_turn :: "string \<Rightarrow> string \<Rightarrow> db \<Rightarrow> (pg_error + string list) \<times> db" where
  "insert_turn sid j d =
     (case jsonb_in d j of
        None \<Rightarrow> (Inl JsonbRejected, d)
      | Some doc \<Rightarrow>
          (case nextval d of
             (Inl e, d1) \<Rightarrow> (Inl e, d1)
           | (Inr i, d1) \<Rightarrow>
               if (sid, i) \<in> set (map (\<lambda>r. (row_session_id r, idx r)) (table d1))
               then (Inl UniqueViolation, d1)
               else (Inr [],
                     d1\<lparr>table := table d1
                          @ [\<lparr>row_session_id = sid, idx = i, payload = doc\<rparr>]\<rparr>)))"

definition delete_last :: "string \<Rightarrow> db \<Rightarrow> (pg_error + string list) \<times> db" where
  "delete_last sid d =
     (case last_ctid sid (table d) of
        None \<Rightarrow> (Inr [], d)
      | Some c \<Rightarrow>
          (Inr (map (\<lambda>cr. payload (snd cr))
                  (filter (\<lambda>cr. fst cr = c) (enumerate 0 (table d)))),
           d\<lparr>table := map snd (filter (\<lambda>cr. fst cr \<noteq> c) (enumerate 0 (table d)))\<rparr>))"

text \<open>
  The placeholders have types: \<open>$1\<close> is compared with or stored in the \<open>TEXT\<close> column
  \<open>session_id\<close>, and \<open>$2\<close> of \<open>LIMIT $2\<close> is a 64-bit integer. A text of the store
  cannot contain the character U+0000, and the driver cannot encode an integer outside
  the 64-bit range.
\<close>

definition valid_text :: "string \<Rightarrow> bool" where
  "valid_text t = (CHR 0x00 \<notin> set t)"

definition int8_max :: int where
  "int8_max = 9223372036854775807"

definition in_int8 :: "int \<Rightarrow> bool" where
  "in_int8 n = (- int8_max - 1 \<le> n \<and> n \<le> int8_max)"

text \<open>
  What binding and running a statement does when the number of arguments is right. The
  driver encodes the arguments first (an integer out of range raises there), the store
  then reads them (a text with U+0000 raises there, and so does a text it rejects as
  \<open>JSONB\<close>, inside \<open>insert_turn\<close>), and only then the statement runs. The result rows
  are given by their only column, \<open>payload\<close>, in the text form the store keeps. A
  negative \<open>LIMIT\<close> is an error of the store; an argument of the wrong type never
  reaches it.
\<close>

fun pg_run :: "stmt \<Rightarrow> arg list \<Rightarrow> db \<Rightarrow> (pg_error + string list) \<times> db" where
  "pg_run (SelectPayloads False) [AText sid] d =
     (if \<not> valid_text sid then (Inl NulInText, d)
      else (Inr (map payload (select_rows sid (table d))), d))"
| "pg_run (SelectPayloads True) [AText sid, AInt n] d =
     (if \<not> in_int8 n then (Inl Int8OutOfRange, d)
      else if \<not> valid_text sid then (Inl NulInText, d)
      else if n < 0 then (Inl NegativeLimit, d)
      else (Inr (map payload (take (nat n) (select_rows sid (table d)))), d))"
| "pg_run InsertTurn [AText sid, AText j] d =
     (if \<not> valid_text sid then (Inl NulInText, d) else insert_turn sid j d)"
| "pg_run DeleteLastReturning [AText sid] d =
     (if \<not> valid_text sid then (Inl NulInText, d) else delete_last sid d)"
| "pg_run DeleteSession [AText sid] d =
     (if \<not> valid_text sid then (Inl NulInText, d)
      else (Inr [], d\<lparr>table := filter (\<lambda>r. row_session_id r \<noteq> sid) (table d)\<rparr>))"
| "pg_run _ _ d = (Inl BadArgument, d)"

text \<open>
  The driver prepares the statement, then binds the arguments: it refuses a call whose
  number of arguments differs from the statement's number of placeholders
  (\<open>WrongArgCount expected passed\<close>).
\<close>

definition pg_execute :: "stmt \<Rightarrow> arg list \<Rightarrow> db \<Rightarrow> (pg_error + string list) \<times> db" where
  "pg_execute q args d =
     (let d1 = d\<lparr>stmt_log := stmt_log d @ [(q, args)]\<rparr>
      in if length args \<noteq> num_params q
         then (Inl (WrongArgCount (num_params q) (length args)), d1)
         else pg_run q args d1)"

subsection \<open>The pool\<close>

record pg_pool =
  pool_dsn :: string
  min_size :: nat
  max_size :: nat
  closed :: bool

definition create_pool :: "string \<Rightarrow> nat \<Rightarrow> nat \<Rightarrow> pg_pool" where
  "create_pool d lo hi = \<lparr>pool_dsn = d, min_size = lo, max_size = hi, closed = False\<rparr>"

text \<open>\<open>Pool.close\<close> returns at once on a pool that is closed already.\<close>

definition pool_close :: "pg_pool \<Rightarrow> pg_pool" where
  "pool_close p = (if closed p then p else p\<lparr>closed := True\<rparr>)"

text \<open>
  \<open>fetch\<close>, \<open>fetchrow\<close>, \<open>execute\<close> and \<open>acquire\<close> raise on a closed pool before
  anything is sent.
\<close>

definition pool_fetch :: "pg_pool \<Rightarrow> stmt \<Rightarrow> arg list \<Rightarrow> db \<Rightarrow> (pg_error + string list) \<times> db" where
  "pool_fetch p q args d = (if closed p then (Inl PoolClosed, d) else pg_execute q args d)"

definition pool_execute :: "pg_pool \<Rightarrow> stmt \<Rightarrow> arg list \<Rightarrow> db \<Rightarrow> (pg_error + unit) \<times> db" where
  "pool_execute p q args d =
     (if closed p then (Inl PoolClosed, d)
      else (case pg_execute q args d of
              (Inl e, d1) \<Rightarrow> (Inl e, d1)
            | (Inr _, d1) \<Rightarrow> (Inr (), d1)))"

text \<open>\<open>fetchrow\<close> gives the first row of the result, or \<open>None\<close>.\<close>

definition conn_fetchrow :: "pg_pool \<Rightarrow> stmt \<Rightarrow> arg list \<Rightarrow> db \<Rightarrow> (pg_error + string option) \<times> db" where
  "conn_fetchrow p q args d =
     (if closed p then (Inl PoolClosed, d)
      else (case pg_execute q args d of
              (Inl e, d1) \<Rightarrow> (Inl e, d1)
            | (Inr rs, d1) \<Rightarrow> (Inr (case rs of [] \<Rightarrow> None | r # _ \<Rightarrow> Some r), d1)))"

text \<open>
  \<open>executemany\<close> runs the statement once per argument tuple, in order, inside one
  transaction: at the first error the rows return to what they were. The sequence and
  the two logs are not transactional.
\<close>

fun exec_each :: "stmt \<Rightarrow> arg list list \<Rightarrow> db \<Rightarrow> (pg_error + unit) \<times> db" where
  "exec_each q [] d = (Inr (), d)"
| "exec_each q (args # rest) d =
     (case pg_execute q args d of
        (Inl e, d1) \<Rightarrow> (Inl e, d1)
      | (Inr _, d1) \<Rightarrow> exec_each q rest d1)"

definition pool_executemany :: "pg_pool \<Rightarrow> stmt \<Rightarrow> arg list list \<Rightarrow> db \<Rightarrow> (pg_error + unit) \<times> db" where
  "pool_executemany p q argss d =
     (if closed p then (Inl PoolClosed, d)
      else (case exec_each q argss d of
              (Inl e, d1) \<Rightarrow> (Inl e, d1\<lparr>table := table d\<rparr>)
            | (Inr u, d1) \<Rightarrow> (Inr u, d1)))"

subsection \<open>The session handle and its five operations\<close>

record session =
  session_id :: string
  dsn :: string
  pool :: "pg_pool option"

text \<open>\<open>__init__\<close>.\<close>

definition PostgreSQLSession :: "string \<Rightarrow> string \<Rightarrow> session" where
  "PostgreSQLSession sid d = \<lparr>session_id = sid, dsn = d, pool = None\<rparr>"

text \<open>\<open>_pool_acquire\<close>, run without interruption.\<close>

definition pool_acquire :: "session \<Rightarrow> pg_pool \<times> session" where
  "pool_acquire s =
     (case pool s of
        None \<Rightarrow> (let p = create_pool (dsn s) 1 10 in (p, s\<lparr>pool := Some p\<rparr>))
      | Some p \<Rightarrow> (p, s))"

text \<open>
  Python's truth test on \<open>limit: Optional[int]\<close>: \<open>None\<close> and \<open>0\<close> are false.
\<close>

definition truthy :: "int option \<Rightarrow> bool" where
  "truthy limit = (case limit of None \<Rightarrow> False | Some n \<Rightarrow> n \<noteq> 0)"

definition get_items_sql :: "int option \<Rightarrow> stmt" where
  "get_items_sql limit = SelectPayloads (truthy limit)"

definition get_items_args :: "string \<Rightarrow> int option \<Rightarrow> arg list" where
  "get_items_args sid limit =
     (case limit of None \<Rightarrow> [AText sid] | Some n \<Rightarrow> [AText sid, AInt n])"

definition get_items ::
  "(string \<Rightarrow> 'd) \<Rightarrow> session \<Rightarrow> int option \<Rightarrow> db \<Rightarrow> (pg_error + 'd list) \<times> session \<times> db" where
  "get_items loads s limit d =
     (let (p, s1) = pool_acquire s;
          sql = get_items_sql limit;
          args = get_items_args (session_id s1) limit
      in case pool_fetch p sql args d of
           (Inl e, d1) \<Rightarrow> (Inl e, s1, d1)
         | (Inr rs, d1) \<Rightarrow> (Inr (map loads rs), s1, d1))"

definition add_items ::
  "('d \<Rightarrow> string) \<Rightarrow> session \<Rightarrow> 'd list \<Rightarrow> db \<Rightarrow> (pg_error + unit) \<times> session \<times> db" where
  "add_items dumps s items d =
     (if items = [] then (Inr (), s, d)
      else
        (let (p, s1) = pool_acquire s
         in case pool_executemany p InsertTurn
                   (map (\<lambda>item. [AText (session_id s1), AText (dumps item)]) items) d of
              (r, d1) \<Rightarrow> (r, s1, d1)))"

definition pop_item ::
  "(string \<Rightarrow> 'd) \<Rightarrow> session \<Rightarrow> db \<Rightarrow> (pg_error + 'd option) \<times> session \<times> db" where
  "pop_item loads s d =
     (let (p, s1) = pool_acquire s
      in case conn_fetchrow p DeleteLastReturning [AText (session_id s1)] d of
           (Inl e, d1) \<Rightarrow> (Inl e, s1, d1)
         | (Inr r, d1) \<Rightarrow> (Inr (map_option loads r), s1, d1))"

definition clear_session :: "session \<Rightarrow> db \<Rightarrow> (pg_error + unit) \<times> session \<times> db" where
  "clear_session s d =
     (let (p, s1) = pool_acquire s
      in case pool_execute p DeleteSession [AText (session_id s1)] d of
           (r, d1) \<Rightarrow> (r, s1, d1))"

definition close :: "session \<Rightarrow> db \<Rightarrow> (pg_error + unit) \<times> session \<times> db" where
  "close s d =
     (case pool s of
        None \<Rightarrow> (Inr (), s, d)
      | Some p \<Rightarrow> (Inr (), s\<lparr>pool := Some (pool_close p)\<rparr>, d))"

text \<open>
  A handle can talk to the store when it has no pool yet (the next operation creates one)
  or its pool is not closed.
\<close>

definition pool_ok :: "session \<Rightarrow> bool" where
  "pool_ok s = (case pool s of None \<Rightarrow> True | Some p \<Rightarrow> \<not> closed p)"

text \<open>\<open>close\<close> called \<open>n\<close> times in a row, with the outcome of each call.\<close>

fun close_times :: "nat \<Rightarrow> session \<Rightarrow> db \<Rightarrow> (pg_error + unit) list \<times> session \<times> db" where
  "close_times 0 s d = ([], s, d)"
| "close_times (Suc n) s d =
     (case close s d of (r, s1, d1) \<Rightarrow>
        (case close_times n s1 d1 of (rs, s2, d2) \<Rightarrow> (r # rs, s2, d2)))"

text \<open>
  The concrete values the examples use: a codec for JSON strings without escapes, a
  \<open>JSONB\<close> conversion that accepts just these string literals and gives them back as
  they are, a handle for session \<open>A\<close> and one for session \<open>B\<close>.
\<close>

definition ex_jsonb :: "string \<Rightarrow> string option" where
  "ex_jsonb j =
     (case j of
        [] \<Rightarrow> None
      | q # r \<Rightarrow>
          if q = CHR 0x22 \<and> r \<noteq> [] \<and> last r = CHR 0x22
             \<and> list_all (\<lambda>c. c \<noteq> CHR 0x22 \<and> c \<noteq> CHR 0x5C \<and> 32 \<le> (of_char c :: nat))
                  (butlast r)
          then Some j else None)"

definition ex_dumps :: "string \<Rightarrow> string" where
  "ex_dumps x = CHR 0x22 # x @ [CHR 0x22]"

definition ex_loads :: "string \<Rightarrow> string" where
  "ex_loads j = butlast (tl j)"

definition ex_A :: session where
  "ex_A = PostgreSQLSession ''A'' ''postgresql://localhost/mydb''"

definition ex_B :: session where
  "ex_B = PostgreSQLSession ''B'' ''postgresql://localhost/mydb''"

subsection \<open>Sequences of calls\<close>


text \<open>
  A history is a list of calls, each made through some handle, in the state that handle
  is in at that moment; the handles of a history may address the same session or
  different ones. \<open>run_history\<close> gives the database after the history; a call that raises
  leaves the database as the exception left it, and the history goes on.
\<close>

datatype 'd call = AddItems "'d list" | PopItem | ClearSession

definition call_db ::
  "('d \<Rightarrow> string) \<Rightarrow> (string \<Rightarrow> 'd) \<Rightarrow> session \<Rightarrow> 'd call \<Rightarrow> db \<Rightarrow> db" where
  "call_db dumps loads s c d =
     (case c of
        AddItems xs \<Rightarrow> snd (snd (add_items dumps s xs d))
      | PopItem \<Rightarrow> snd (snd (pop_item loads s d))
      | ClearSession \<Rightarrow> snd (snd (clear_session s d)))"

fun run_history ::
  "('d \<Rightarrow> string) \<Rightarrow> (string \<Rightarrow> 'd) \<Rightarrow> (session \<times> 'd call) list \<Rightarrow> db \<Rightarrow> db" where
  "run_history dumps loads [] d = d"
| "run_history dumps loads (sc # h) d =
     run_history dumps loads h (call_db dumps loads (fst sc) (snd sc) d)"

subsection \<open>Invariants of the table\<close>

text \<open>
  The rows \<open>INSERT\<close> adds for the payloads \<open>js\<close> when the sequence stands at \<open>i\<close>.
\<close>

fun turn_rows :: "string \<Rightarrow> int \<Rightarrow> string list \<Rightarrow> row list" where
  "turn_rows sid i [] = []"
| "turn_rows sid i (j # js) =
     \<lparr>row_session_id = sid, idx = i, payload = j\<rparr> # turn_rows sid (i + 1) js"

text \<open>
  \<open>db_inv\<close>: the primary key \<open>(session_id, idx)\<close> is unique, and every \<open>idx\<close> in the
  table is below the next value of the sequence. It holds of the empty table and every
  statement keeps it.
\<close>

definition db_inv :: "db \<Rightarrow> bool" where
  "db_inv d =
     (distinct (map (\<lambda>r. (row_session_id r, idx r)) (table d))
      \<and> list_all (\<lambda>r. idx r < seq_next d) (table d))"

text \<open>
  \<open>seq_inv\<close>: the values the sequence has handed out are strictly increasing and below
  its next value; the table holds its rows in the order they were inserted, every \<open>idx\<close>
  in it was handed out by the sequence, and they increase strictly along that order.
\<close>

definition seq_inv :: "db \<Rightarrow> bool" where
  "seq_inv d =
     (sorted_wrt (<) (issued d)
      \<and> list_all (\<lambda>v. v < seq_next d) (issued d)
      \<and> sorted_wrt (<) (map idx (table d))
      \<and> list_all (\<lambda>r. idx r \<in> set (issued d)) (table d))"

text \<open>
  \<open>seq_ext d d'\<close>: \<open>d'\<close> satisfies \<open>seq_inv\<close>, the sequence has not gone back, the
  values handed out up to \<open>d\<close> are the first ones handed out up to \<open>d'\<close>, and every row
  of \<open>d'\<close> was a row of \<open>d\<close> or carries a value that had not been handed out at \<open>d\<close>.
\<close>

definition seq_ext :: "db \<Rightarrow> db \<Rightarrow> bool" where
  "seq_ext d d' =
     (seq_inv d'
      \<and> seq_next d \<le> seq_next d'
      \<and> take (length (issued d)) (issued d') = issued d
      \<and> list_all (\<lambda>r. r \<in> set (table d) \<or> seq_next d \<le> idx r) (table d'))"

subsection \<open>\<open>_pool_acquire\<close> under interleaving\<close>

text \<open>
  \<open>_pool_acquire\<close> suspends at \<open>await asyncpg.create_pool(...)\<close>, between the test
  \<open>self._pool is None\<close> and the assignment to \<open>self._pool\<close>; the event loop may run
  another caller there. Each caller is at the start, suspended in the creation, or has
  returned a pool. Pools are objects: \<open>pool_heap\<close> holds the pools created so far and
  a pool is referred to by its position there.
\<close>

datatype acq_pc = AcqStart | AcqAwaitCreate | AcqDone nat

record acq_state =
  self_pool :: "nat option"
  pool_heap :: "pg_pool list"
  callers :: "acq_pc list"

definition acq_init :: "nat \<Rightarrow> acq_state" where
  "acq_init n = \<lparr>self_pool = None, pool_heap = [], callers = replicate n AcqStart\<rparr>"

text \<open>One step of caller \<open>i\<close>, up to its next suspension or its return.\<close>

definition acq_step :: "string \<Rightarrow> nat \<Rightarrow> acq_state \<Rightarrow> acq_state" where
  "acq_step dn i st =
     (if i < length (callers st) then
        (case callers st ! i of
           AcqStart \<Rightarrow>
             (case self_pool st of
                None \<Rightarrow> st\<lparr>callers := (callers st)[i := AcqAwaitCreate]\<rparr>
              | Some p \<Rightarrow> st\<lparr>callers := (callers st)[i := AcqDone p]\<rparr>)
         | AcqAwaitCreate \<Rightarrow>
             (let p = length (pool_heap st)
              in st\<lparr>pool_heap := pool_heap st @ [create_pool dn 1 10],
                    self_pool := Some p,
                    callers := (callers st)[i := AcqDone p]\<rparr>)
         | AcqDone p \<Rightarrow> st)
      else st)"

text \<open>A schedule names the caller that runs next.\<close>

fun acq_run :: "string \<Rightarrow> nat list \<Rightarrow> acq_state \<Rightarrow> acq_state" where
  "acq_run dn [] st = st"
| "acq_run dn (i # sched) st = acq_run dn sched (acq_step dn i st)"

subsection \<open>Example states\<close>

text \<open>The table after three turns were added to the empty table through \<open>ex_A\<close>.\<close>

definition ex_d3 :: db where
  "ex_d3 = snd (snd (add_items ex_dumps ex_A [''Q1'', ''A1'', ''Q2''] (ensure_schema ex_jsonb None)))"

text \<open>The table after the same payload was added twice through \<open>ex_A\<close>.\<close>

definition ex_dup :: db where
  "ex_dup = snd (snd (add_items ex_dumps ex_A [''hi'', ''hi''] (ensure_schema ex_jsonb None)))"

text \<open>The table \<open>ex_d3\<close> after one turn was added to session \<open>B\<close>.\<close>

definition ex_ab :: db where
  "ex_ab = snd (snd (add_items ex_dumps ex_B [''B1''] ex_d3))"

text \<open>A history over both sessions, with a pop and a clear between the inserts.\<close>

definition ex_history :: "(session \<times> string call) list" where
  "ex_history =
     [(ex_A, AddItems [''Q1'', ''A1'']), (ex_A, PopItem), (ex_B, AddItems [''B1'']),
      (ex_A, ClearSession), (ex_A, AddItems [''Q2''])]"

section \<open>Properties\<close>

subsection \<open>The pool of a handle\<close>

lemma pool_acquire_open: "pool_ok s \<Longrightarrow> \<not> closed (fst (pool_acquire s))"
  by (simp add: pool_ok_def pool_acquire_def create_pool_def Let_def split: option.splits)

lemma pool_acquire_closed: "\<not> pool_ok s \<Longrightarrow> closed (fst (pool_acquire s))"
  by (simp add: pool_ok_def pool_acquire_def split: option.splits)

lemma pool_acquire_sid: "session_id (snd (pool_acquire s)) = session_id s"
  by (simp add: pool_acquire_def Let_def split: option.splits)

lemma pool_acquire_pool: "pool (snd (pool_acquire s)) = Some (fst (pool_acquire s))"
  by (simp add: pool_acquire_def Let_def split: option.splits)

lemma pool_acquire_ok: "pool_ok s \<Longrightarrow> pool_ok (snd (pool_acquire s))"
  by (simp add: pool_ok_def pool_acquire_def create_pool_def Let_def split: option.splits)

lemma pool_acquire_again: "pool_acquire (snd (pool_acquire s)) = pool_acquire s"
  by (simp add: pool_acquire_def Let_def split: option.splits)

lemma ex_A_ok: "pool_ok ex_A"
  by (simp add: pool_ok_def ex_A_def PostgreSQLSession_def)

subsection \<open>No call changes the conversion of the store\<close>

lemma pg_run_jsonb: "jsonb_in (snd (pg_run q args d)) = jsonb_in d"
  by (cases "(q, args, d)" rule: pg_run.cases)
     (auto simp: insert_turn_def nextval_def delete_last_def split: option.splits)

lemma pg_execute_jsonb: "jsonb_in (snd (pg_execute q args d)) = jsonb_in d"
  using pg_run_jsonb[of q args "d\<lparr>stmt_log := stmt_log d @ [(q, args)]\<rparr>"]
  by (simp add: pg_execute_def Let_def)

lemma exec_each_jsonb: "jsonb_in (snd (exec_each q argss d)) = jsonb_in d"
proof (induction argss arbitrary: d)
  case Nil
  then show ?case by simp
next
  case (Cons args argss)
  obtain r d1 where e: "pg_execute q args d = (r, d1)" by (cases "pg_execute q args d")
  have "jsonb_in d1 = jsonb_in d" using pg_execute_jsonb[of q args d] e by simp
  then show ?case using Cons.IH[of d1] e by (cases r) simp_all
qed

lemma call_db_jsonb: "jsonb_in (call_db dumps loads s c d) = jsonb_in d"
proof (cases c)
  case (AddItems xs)
  then show ?thesis
    using exec_each_jsonb[of InsertTurn _ d]
    by (simp add: call_db_def add_items_def pool_executemany_def Let_def case_prod_beta
        split: sum.splits)
next
  case PopItem
  then show ?thesis
    using pg_execute_jsonb[of DeleteLastReturning _ d]
    by (simp add: call_db_def pop_item_def conn_fetchrow_def Let_def case_prod_beta
        split: sum.splits)
next
  case ClearSession
  then show ?thesis
    using pg_execute_jsonb[of DeleteSession _ d]
    by (simp add: call_db_def clear_session_def pool_execute_def Let_def case_prod_beta
        split: sum.splits)
qed

lemma run_history_jsonb: "jsonb_in (run_history dumps loads h d) = jsonb_in d"
  by (induction h arbitrary: d) (simp_all add: call_db_jsonb)

subsection \<open>\<open>add_items\<close> with nothing to add\<close>

text \<open>
  C6. \<open>add_items\<close> called with the empty list returns at once: the handle and the
  database are what they were, so no row of any session has changed, no pool has been
  created and the store has received no statement.
\<close>

theorem add_items_empty_noop:
  "add_items dumps s [] d = (Inr (), s, d)
   \<and> stmt_log (snd (snd (add_items dumps s [] d))) = stmt_log d
   \<and> table (snd (snd (add_items dumps s [] d))) = table d"
  by (simp add: add_items_def)

theorem add_items_empty_noop_witness:
  "add_items ex_dumps ex_A [] (ensure_schema ex_jsonb None) = (Inr (), ex_A, ensure_schema ex_jsonb None)"
  using add_items_empty_noop [of ex_dumps ex_A "ensure_schema ex_jsonb None"] by (rule conjunct1)

subsection \<open>\<open>close\<close>\<close>

lemma close_ok: "fst (close s d) = Inr ()"
  by (simp add: close_def split: option.splits)

lemma close_fixed: "close s d = (r, s1, d1) \<Longrightarrow> close s1 d1 = (Inr (), s1, d1)"
  by (auto simp: close_def pool_close_def split: option.splits)

lemma close_times_ok: "fst (close_times n s d) = replicate n (Inr ())"
proof (induction n arbitrary: s d)
  case 0
  then show ?case by simp
next
  case (Suc n)
  obtain r s1 d1 where c: "close s d = (r, s1, d1)" by (cases "close s d")
  have r: "r = Inr ()" using close_ok[of s d] c by simp
  obtain rs s2 d2 where t: "close_times n s1 d1 = (rs, s2, d2)" by (cases "close_times n s1 d1")
  have "rs = replicate n (Inr ())" using Suc.IH[of s1 d1] t by simp
  then show ?case using c r t by simp
qed

lemma close_times_state: "snd (close_times (Suc n) s d) = snd (close s d)"
proof (induction n arbitrary: s d)
  case 0
  then show ?case by (simp split: prod.splits)
next
  case (Suc n)
  obtain r s1 d1 where c: "close s d = (r, s1, d1)" by (cases "close s d")
  have f: "close s1 d1 = (Inr (), s1, d1)" using c by (rule close_fixed)
  have "snd (close_times (Suc n) s1 d1) = snd (close s1 d1)" by (rule Suc.IH)
  then show ?case using c f by (simp split: prod.splits)
qed

text \<open>
  C8. Whatever the handle's pool is (none, open or closed), any number of \<open>close\<close>
  calls in a row all succeed, and after the first one the further calls change nothing.
  On a handle that never created a pool, \<open>close\<close> succeeds and changes nothing at all.
\<close>

theorem close_idempotent:
  "fst (close_times n s d) = replicate n (Inr ())
   \<and> snd (close_times (Suc n) s d) = snd (close s d)
   \<and> close (PostgreSQLSession sid dn) d = (Inr (), PostgreSQLSession sid dn, d)"
  by (simp only: close_times_ok close_times_state, simp add: close_def PostgreSQLSession_def)

theorem close_idempotent_witness:
  "fst (close_times 3 ex_A (ensure_schema ex_jsonb None)) = [Inr (), Inr (), Inr ()]
   \<and> snd (close_times 3 ex_A (ensure_schema ex_jsonb None)) = (ex_A, ensure_schema ex_jsonb None)"
  using close_idempotent [of 2 ex_A "ensure_schema ex_jsonb None" "''A''" "''postgresql://localhost/mydb''"]
  by (simp add: numeral_3_eq_3 ex_A_def close_def PostgreSQLSession_def)

subsection \<open>\<open>get_items\<close> with \<open>limit = 0\<close>\<close>

text \<open>
  C10. For \<open>limit = 0\<close> the truth test on \<open>limit\<close> fails, so the statement has no
  \<open>LIMIT\<close> clause and one placeholder, while the test \<open>limit is None\<close> fails too, so
  two arguments are passed. The call raises: the driver's argument-count error on a
  usable pool, the closed-pool error otherwise. It returns no sequence.
\<close>

theorem get_items_limit_zero_raises:
  "get_items_sql (Some 0) = SelectPayloads False
   \<and> num_params (get_items_sql (Some 0)) = 1
   \<and> length (get_items_args (session_id s) (Some 0)) = 2
   \<and> fst (get_items loads s (Some 0) d)
       = Inl (if pool_ok s then WrongArgCount 1 2 else PoolClosed)"
proof -
  have "fst (get_items loads s (Some 0) d)
          = Inl (if pool_ok s then WrongArgCount 1 2 else PoolClosed)"
  proof (cases "pool_ok s")
    case True
    then show ?thesis using pool_acquire_open[OF True]
      by (simp add: get_items_def get_items_sql_def get_items_args_def truthy_def
          pool_fetch_def pg_execute_def Let_def case_prod_beta)
  next
    case False
    then show ?thesis using pool_acquire_closed[OF False]
      by (simp add: get_items_def pool_fetch_def Let_def case_prod_beta)
  qed
  then show ?thesis
    by (simp add: get_items_sql_def get_items_args_def truthy_def)
qed

theorem get_items_limit_zero_raises_witness:
  "fst (get_items ex_loads ex_A (Some 0) (ensure_schema ex_jsonb None)) = Inl (WrongArgCount 1 2)"
  using get_items_limit_zero_raises [of ex_A ex_loads "ensure_schema ex_jsonb None"] ex_A_ok by simp

subsection \<open>Reading and clearing on a usable pool\<close>

lemma get_items_None:
  assumes "pool_ok s" and "valid_text (session_id s)"
  shows "get_items loads s None d =
    (Inr (map loads (map payload (select_rows (session_id s) (table d)))),
     snd (pool_acquire s),
     d\<lparr>stmt_log := stmt_log d @ [(SelectPayloads False, [AText (session_id s)])]\<rparr>)"
  using pool_acquire_open[OF assms(1)] assms(2)
  by (simp add: get_items_def get_items_sql_def get_items_args_def truthy_def pool_fetch_def
      pg_execute_def Let_def case_prod_beta pool_acquire_sid)

lemma get_items_pos:
  assumes "pool_ok s" and "valid_text (session_id s)" and "0 < n" and "n \<le> int8_max"
  shows "get_items loads s (Some n) d =
    (Inr (map loads (map payload (take (nat n) (select_rows (session_id s) (table d))))),
     snd (pool_acquire s),
     d\<lparr>stmt_log := stmt_log d @ [(SelectPayloads True, [AText (session_id s), AInt n])]\<rparr>)"
  using pool_acquire_open[OF assms(1)] assms(2,3,4)
  by (simp add: get_items_def get_items_sql_def get_items_args_def truthy_def pool_fetch_def
      pg_execute_def Let_def case_prod_beta pool_acquire_sid in_int8_def int8_max_def)

lemma clear_session_run:
  assumes "pool_ok s" and "valid_text (session_id s)"
  shows "clear_session s d =
    (Inr (), snd (pool_acquire s),
     d\<lparr>stmt_log := stmt_log d @ [(DeleteSession, [AText (session_id s)])],
       table := filter (\<lambda>r. row_session_id r \<noteq> session_id s) (table d)\<rparr>)"
  using pool_acquire_open[OF assms(1)] assms(2)
  by (simp add: clear_session_def pool_execute_def pg_execute_def Let_def case_prod_beta
      pool_acquire_sid)

lemma rows_of_cleared: "rows_of sid (filter (\<lambda>r. row_session_id r \<noteq> sid) t) = []"
  by (induction t) (auto simp: rows_of_def)

lemma ex_d3_table:
  "table ex_d3 =
     [\<lparr>row_session_id = ''A'', idx = 1, payload = ex_dumps ''Q1''\<rparr>,
      \<lparr>row_session_id = ''A'', idx = 2, payload = ex_dumps ''A1''\<rparr>,
      \<lparr>row_session_id = ''A'', idx = 3, payload = ex_dumps ''Q2''\<rparr>]"
  by code_simp

lemma ex_A_sid: "session_id ex_A = ''A''"
  by (simp add: ex_A_def PostgreSQLSession_def)

lemma ex_A_text: "valid_text (session_id ex_A)"
  by (simp add: ex_A_sid valid_text_def)


text \<open>
  C3. Take a usable pool, a session identifier the store accepts as text (no U+0000) and
  a positive \<open>limit\<close> that fits the 64-bit integer the driver binds to \<open>LIMIT $2\<close>.
  Then \<open>get_items limit\<close> returns the first \<open>limit\<close> payloads of what \<open>get_items\<close>
  returns without a limit, which are the payloads of all rows of the session in
  ascending \<open>idx\<close>: the oldest turns, at most \<open>limit\<close> of them. On a session without
  rows both calls return the empty list and no error.
\<close>

theorem get_items_limit_oldest:
  assumes "pool_ok s" and "valid_text (session_id s)" and "0 < n" and "n \<le> int8_max"
  shows "fst (get_items loads s None d)
           = Inr (map (\<lambda>r. loads (payload r)) (select_rows (session_id s) (table d)))
       \<and> fst (get_items loads s (Some n) d)
           = Inr (take (nat n)
                   (map (\<lambda>r. loads (payload r)) (select_rows (session_id s) (table d))))
       \<and> sorted (map idx (select_rows (session_id s) (table d)))
       \<and> set (select_rows (session_id s) (table d)) = set (rows_of (session_id s) (table d))
       \<and> length (select_rows (session_id s) (table d))
           = length (rows_of (session_id s) (table d))
       \<and> (rows_of (session_id s) (table d) = []
            \<longrightarrow> fst (get_items loads s None d) = Inr []
              \<and> fst (get_items loads s (Some n) d) = Inr [])"
  by (simp add: get_items_None[OF assms(1,2)] get_items_pos[OF assms] select_rows_def take_map)

theorem get_items_limit_oldest_witness:
  "fst (get_items ex_loads ex_A (Some 2) ex_d3) = Inr [''Q1'', ''A1'']
   \<and> fst (get_items ex_loads ex_A (Some 2) (ensure_schema ex_jsonb None)) = Inr []"
proof -
  have p: "(0::int) < 2" by simp
  have q: "(2::int) \<le> int8_max" by (simp add: int8_max_def)
  have sid: "session_id ex_A = ''A''" by (simp add: ex_A_def PostgreSQLSession_def)
  note a = get_items_limit_oldest [OF ex_A_ok ex_A_text p q, of ex_loads ex_d3,
      THEN conjunct2, THEN conjunct1]
  note b = get_items_limit_oldest [OF ex_A_ok ex_A_text p q, of ex_loads
      "ensure_schema ex_jsonb None", THEN conjunct2, THEN conjunct1]
  have "fst (get_items ex_loads ex_A (Some 2) ex_d3) = Inr [''Q1'', ''A1'']"
    using a by (simp add: sid select_rows_def rows_of_def ex_d3_table ex_dumps_def ex_loads_def)
  moreover have "fst (get_items ex_loads ex_A (Some 2) (ensure_schema ex_jsonb None)) = Inr []"
    using b by (simp add: sid ensure_schema_def select_rows_def rows_of_def)
  ultimately show ?thesis by simp
qed

text \<open>
  C7. On a usable pool and for a session identifier the store accepts as text (no
  U+0000), \<open>clear_session\<close> succeeds and removes exactly the rows of its session,
  whatever they are, so \<open>get_items\<close> then returns the empty list. A second
  \<open>clear_session\<close> right after it succeeds too and changes neither the table nor the
  sequence.
\<close>

theorem clear_session_empties:
  assumes "pool_ok s" and "valid_text (session_id s)"
  shows "(case clear_session s d of (r1, s1, d1) \<Rightarrow>
            r1 = Inr ()
          \<and> table d1 = filter (\<lambda>r. row_session_id r \<noteq> session_id s) (table d)
          \<and> rows_of (session_id s) (table d1) = []
          \<and> fst (get_items loads s1 None d1) = Inr []
          \<and> (case clear_session s1 d1 of (r2, s2, d2) \<Rightarrow>
                r2 = Inr () \<and> s2 = s1 \<and> table d2 = table d1 \<and> seq_next d2 = seq_next d1
              \<and> issued d2 = issued d1))"
proof -
  let ?s1 = "snd (pool_acquire s)"
  have ok1: "pool_ok ?s1" using assms(1) by (rule pool_acquire_ok)
  have sid1: "session_id ?s1 = session_id s" by (rule pool_acquire_sid)
  have txt1: "valid_text (session_id ?s1)" using assms(2) by (simp add: sid1)
  have again: "snd (pool_acquire ?s1) = ?s1" by (simp add: pool_acquire_again)
  show ?thesis
    by (simp add: clear_session_run[OF assms] clear_session_run[OF ok1 txt1]
        get_items_None[OF ok1 txt1] sid1 again rows_of_cleared select_rows_def)
qed

theorem clear_session_empties_witness:
  "fst (clear_session ex_A ex_d3) = Inr ()
   \<and> table (snd (snd (clear_session ex_A ex_d3))) = []"
proof -
  have sid: "session_id ex_A = ''A''" by (simp add: ex_A_def PostgreSQLSession_def)
  show ?thesis
    using clear_session_empties [OF ex_A_ok ex_A_text, of ex_d3 ex_loads]
    by (simp add: sid ex_d3_table case_prod_beta)
qed

subsection \<open>Adding turns\<close>



lemma sid_turn_rows: "r \<in> set (turn_rows sid i js) \<Longrightarrow> row_session_id r = sid"
  by (induction js arbitrary: i) auto




lemma rows_of_turn_rows_other: "b \<noteq> sid \<Longrightarrow> rows_of b (turn_rows sid i js) = []"
  by (induction js arbitrary: i) (simp_all add: rows_of_def)









text \<open>
  What the hypotheses of C1 exclude raises: a session identifier with U+0000, and a
  payload whose text the store rejects as \<open>JSONB\<close>. In both cases the table stays as
  it was.
\<close>

lemma add_items_nul_session:
  assumes "pool_ok s" and "\<not> valid_text (session_id s)" and "items \<noteq> []"
  shows "fst (add_items dumps s items d) = Inl NulInText
       \<and> table (snd (snd (add_items dumps s items d))) = table d"
proof -
  obtain x xs where items: "items = x # xs" using assms(3) by (cases items) auto
  show ?thesis
    using pool_acquire_open[OF assms(1)] assms(2)
    by (simp add: items add_items_def pool_executemany_def pg_execute_def Let_def
        case_prod_beta pool_acquire_sid)
qed

lemma add_items_rejected_payload:
  assumes "pool_ok s" and "valid_text (session_id s)" and "jsonb_in d (dumps x) = None"
  shows "fst (add_items dumps s (x # xs) d) = Inl JsonbRejected
       \<and> table (snd (snd (add_items dumps s (x # xs) d))) = table d"
  using pool_acquire_open[OF assms(1)] assms(2,3)
  by (simp add: add_items_def pool_executemany_def pg_execute_def insert_turn_def Let_def
      case_prod_beta pool_acquire_sid)





subsection \<open>Popping the last turn\<close>

lemma enumerate_drop_ctid:
  "n \<le> c \<Longrightarrow>
   map snd (filter (\<lambda>cr. fst cr \<noteq> c) (enumerate n t)) = take (c - n) t @ drop (Suc (c - n)) t"
proof (induction t arbitrary: n)
  case Nil
  then show ?case by simp
next
  case (Cons a t)
  show ?case
  proof (cases "n = c")
    case True
    have "filter (\<lambda>cr. fst cr \<noteq> c) (enumerate (Suc c) t) = enumerate (Suc c) t"
      by (rule filter_True) (auto simp: in_set_enumerate_eq)
    then show ?thesis using True by simp
  next
    case False
    then have le: "Suc n \<le> c" using Cons.prems by simp
    then obtain k where k: "c - n = Suc k" and k': "c - Suc n = k"
      by (metis Suc_diff_le diff_Suc_Suc)
    from Cons.IH[OF le] False show ?thesis
      by (simp add: k k')
  qed
qed

lemma enumerate_pick_ctid:
  "n \<le> c \<Longrightarrow> c - n < length t \<Longrightarrow>
   filter (\<lambda>cr. fst cr = c) (enumerate n t) = [(c, t ! (c - n))]"
proof (induction t arbitrary: n)
  case Nil
  then show ?case by simp
next
  case (Cons a t)
  show ?case
  proof (cases "n = c")
    case True
    have "filter (\<lambda>cr. fst cr = c) (enumerate (Suc c) t) = []"
      by (auto simp: filter_empty_conv in_set_enumerate_eq)
    then show ?thesis using True by simp
  next
    case False
    then have le: "Suc n \<le> c" using Cons.prems by simp
    have lt: "c - Suc n < length t" using Cons.prems False by auto
    from Cons.IH[OF le lt] False Cons.prems show ?thesis
      by (simp add: nth_Cons')
  qed
qed

lemma remove1_nth_distinct:
  "distinct t \<Longrightarrow> c < length t \<Longrightarrow> take c t @ drop (Suc c) t = remove1 (t ! c) t"
proof (induction t arbitrary: c)
  case Nil
  then show ?case by simp
next
  case (Cons a t)
  then show ?case by (cases c) auto
qed

lemma rows_of_enumerate:
  "map snd (filter (\<lambda>cr. row_session_id (snd cr) = sid) (enumerate n t)) = rows_of sid t"
  by (induction t arbitrary: n) (simp_all add: rows_of_def)

lemma last_ctid_None: "rows_of sid t = [] \<Longrightarrow> last_ctid sid t = None"
proof -
  assume e: "rows_of sid t = []"
  have "filter (\<lambda>cr. row_session_id (snd cr) = sid) (enumerate 0 t) = []"
    using rows_of_enumerate[of sid 0 t] e by simp
  then show ?thesis by (simp add: last_ctid_def)
qed

lemma last_ctid_Some_ex:
  assumes "rows_of sid t \<noteq> []"
  shows "\<exists>c. last_ctid sid t = Some c"
proof -
  let ?F = "filter (\<lambda>cr. row_session_id (snd cr) = sid) (enumerate 0 t)"
  have "?F \<noteq> []" using rows_of_enumerate[of sid 0 t] assms by auto
  then have "sort_key (\<lambda>cr. - idx (snd cr)) ?F \<noteq> []"
    by (metis length_0_conv length_sort)
  then show ?thesis by (auto simp: last_ctid_def split: list.splits)
qed

lemma last_ctid_Some:
  assumes "last_ctid sid t = Some c"
  shows "c < length t \<and> row_session_id (t ! c) = sid
       \<and> (\<forall>r\<in>set (rows_of sid t). idx r \<le> idx (t ! c))"
proof -
  let ?F = "filter (\<lambda>cr. row_session_id (snd cr) = sid) (enumerate 0 t)"
  let ?k = "\<lambda>cr::nat \<times> row. - idx (snd cr)"
  obtain cr rest where S: "sort_key ?k ?F = cr # rest" and c: "fst cr = c"
    using assms by (auto simp: last_ctid_def split: list.splits)
  have "cr \<in> set (sort_key ?k ?F)" using S by simp
  then have inF: "cr \<in> set ?F" by simp
  then have en: "cr \<in> set (enumerate 0 t)" and sid: "row_session_id (snd cr) = sid" by auto
  from en have lt: "fst cr < length t" and sn: "snd cr = t ! fst cr"
    by (auto simp: in_set_enumerate_eq)
  have "sorted (map ?k (sort_key ?k ?F))" by (rule sorted_sort_key)
  then have "\<forall>x\<in>set rest. ?k cr \<le> ?k x" using S by simp
  moreover have "set ?F = insert cr (set rest)"
    using S by (metis list.simps(15) set_sort)
  ultimately have mx: "\<forall>x\<in>set ?F. idx (snd x) \<le> idx (snd cr)" by auto
  have "\<forall>r\<in>set (rows_of sid t). idx r \<le> idx (snd cr)"
  proof
    fix r assume "r \<in> set (rows_of sid t)"
    then have "r \<in> snd ` set ?F" using rows_of_enumerate[of sid 0 t] by (metis set_map)
    then show "idx r \<le> idx (snd cr)" using mx by auto
  qed
  then show ?thesis using lt sn sid c by simp
qed

lemma delete_last_Some:
  assumes "last_ctid sid (table d) = Some c"
  shows "delete_last sid d =
           (Inr [payload (table d ! c)],
            d\<lparr>table := take c (table d) @ drop (Suc c) (table d)\<rparr>)"
proof -
  have lt: "c < length (table d)" using last_ctid_Some[OF assms] by simp
  show ?thesis
    using assms enumerate_pick_ctid[of 0 c "table d"] enumerate_drop_ctid[of 0 c "table d"] lt
    by (simp add: delete_last_def)
qed

lemma delete_last_None:
  assumes "last_ctid sid (table d) = None"
  shows "delete_last sid d = (Inr [], d)"
  using assms by (simp add: delete_last_def)

lemma get_items_None_text:
  assumes "pool_ok s" and "fst (get_items loads s None d) = Inr xs"
  shows "valid_text (session_id s)"
proof (rule ccontr)
  assume "\<not> valid_text (session_id s)"
  then have "fst (get_items loads s None d) = Inl NulInText"
    using pool_acquire_open[OF assms(1)]
    by (simp add: get_items_def get_items_sql_def get_items_args_def truthy_def pool_fetch_def
        pg_execute_def Let_def case_prod_beta pool_acquire_sid)
  then show False using assms(2) by simp
qed

lemma pop_item_run:
  assumes "pool_ok s" and "valid_text (session_id s)"
  shows "pop_item loads s d =
    (case delete_last (session_id s)
            (d\<lparr>stmt_log := stmt_log d @ [(DeleteLastReturning, [AText (session_id s)])]\<rparr>) of
       (Inl e, d1) \<Rightarrow> (Inl e, snd (pool_acquire s), d1)
     | (Inr rs, d1) \<Rightarrow>
         (Inr (map_option loads (case rs of [] \<Rightarrow> None | r # _ \<Rightarrow> Some r)),
          snd (pool_acquire s), d1))"
  using pool_acquire_open[OF assms(1)] assms(2)
  by (simp add: pop_item_def conn_fetchrow_def pg_execute_def Let_def case_prod_beta
      pool_acquire_sid split: sum.splits prod.splits)

lemma sorted_le_last: "sorted (map f xs) \<Longrightarrow> x \<in> set xs \<Longrightarrow> f x \<le> f (last xs)"
  by (induction xs) auto

lemma set_butlast_distinct:
  assumes "distinct xs" and "xs \<noteq> []"
  shows "set (butlast xs) = set xs - {last xs}"
proof -
  have "xs = butlast xs @ [last xs]" using assms(2) by simp
  then have "distinct (butlast xs @ [last xs])" and "set xs = set (butlast xs @ [last xs])"
    using assms(1) by simp_all
  then show ?thesis by auto
qed

lemma pk_inj:
  assumes "distinct (map (\<lambda>r. (row_session_id r, idx r)) t)"
  shows "inj_on idx (set (rows_of sid t))"
proof (rule inj_onI)
  fix x y
  assume x: "x \<in> set (rows_of sid t)" and y: "y \<in> set (rows_of sid t)" and e: "idx x = idx y"
  have inj: "inj_on (\<lambda>r. (row_session_id r, idx r)) (set t)"
    using assms by (simp add: distinct_map)
  have "x \<in> set t" "y \<in> set t" "row_session_id x = row_session_id y"
    using x y by (simp_all add: rows_of_def)
  then show "x = y" using e inj by (auto dest: inj_onD)
qed

lemma select_rows_remove_max:
  assumes pk: "distinct (map (\<lambda>r. (row_session_id r, idx r)) t)"
    and m: "m \<in> set (rows_of sid t)"
    and mx: "\<forall>r\<in>set (rows_of sid t). idx r \<le> idx m"
  shows "last (select_rows sid t) = m
       \<and> select_rows sid (remove1 m t) = butlast (select_rows sid t)"
proof -
  let ?xs = "rows_of sid t"
  let ?L = "sort_key idx ?xs"
  have dt: "distinct t" using pk by (simp add: distinct_map)
  have dx: "distinct ?xs" using dt by (simp add: rows_of_def)
  have inj: "inj_on idx (set ?xs)" using pk by (rule pk_inj)
  have ne: "?L \<noteq> []" using m by (metis empty_iff empty_set set_sort)
  have sL: "sorted (map idx ?L)" by (rule sorted_sort_key)
  have dL: "distinct ?L" using dx by simp
  have "last ?L \<in> set ?xs" using ne by (metis last_in_set set_sort)
  then have "idx (last ?L) \<le> idx m" using mx by simp
  moreover have "idx m \<le> idx (last ?L)" using sorted_le_last[OF sL, of m] m by simp
  ultimately have "idx (last ?L) = idx m" by simp
  then have last: "last ?L = m"
    using inj \<open>last ?L \<in> set ?xs\<close> m by (auto dest: inj_onD)
  let ?A = "sort_key idx (remove1 m ?xs)"
  let ?B = "butlast ?L"
  have setA: "set ?A = set ?xs - {m}" using dx by simp
  have setB: "set ?B = set ?xs - {m}" using set_butlast_distinct[OF dL ne] last by simp
  have injAB: "inj_on idx (set ?A \<union> set ?B)"
    using inj setA setB by (auto intro: inj_on_subset)
  have sA: "sorted (map idx ?A)" by (rule sorted_sort_key)
  have dA: "distinct (map idx ?A)"
    using dx inj setA by (simp add: distinct_map inj_on_diff)
  have sB: "sorted (map idx ?B)" using sL ne by (simp add: map_butlast sorted_butlast)
  have dB: "distinct (map idx ?B)"
    using dL inj setB by (simp add: distinct_map distinct_butlast inj_on_diff)
  have "?A = ?B"
    using map_sorted_distinct_set_unique[OF injAB sA dA sB dB] setA setB by simp
  moreover have "rows_of sid (remove1 m t) = remove1 m ?xs"
    by (simp add: rows_of_def filter_remove1)
  ultimately show ?thesis using last by (simp add: select_rows_def)
qed

lemma ex_d3_inv: "db_inv ex_d3"
  by code_simp

lemma ex_d3_items: "fst (get_items ex_loads ex_A None ex_d3) = Inr [''Q1'', ''A1'', ''Q2'']"
  by code_simp

text \<open>
  C2, as stated, fails where a payload occurs twice: after \<open>''hi''\<close> was added twice,
  \<open>pop_item\<close> returns \<open>''hi''\<close> and the \<open>get_items\<close> that follows returns
  \<open>[''hi'']\<close>, which still contains the popped payload.
\<close>

theorem pop_item_duplicate_counterexample:
  "fst (pop_item ex_loads ex_A ex_dup) = Inr (Some ''hi'')
   \<and> fst (get_items ex_loads (fst (snd (pop_item ex_loads ex_A ex_dup))) None
           (snd (snd (pop_item ex_loads ex_A ex_dup)))) = Inr [''hi'']
   \<and> ''hi'' \<in> set [''hi'']"
  by code_simp

text \<open>
  C2, amended. On a usable pool and a table that satisfies \<open>db_inv\<close>, let \<open>xs\<close> be
  what \<open>get_items\<close> returns without a limit. If \<open>xs\<close> is empty, \<open>pop_item\<close>
  returns nothing and leaves the table as it is. Otherwise it returns the last element
  of \<open>xs\<close>, it removes from the table exactly one row, a row of the session whose
  \<open>idx\<close> is the greatest of the session, and \<open>get_items\<close> afterwards returns
  \<open>xs\<close> without its last element: one item fewer. The popped payload is absent from
  that result when the payloads of \<open>xs\<close> are pairwise different.
\<close>

theorem pop_item_removes_last:
  assumes "pool_ok s" and "db_inv d"
    and "fst (get_items loads s None d) = Inr xs"
  shows "(xs = [] \<longrightarrow>
            fst (pop_item loads s d) = Inr None
          \<and> table (snd (snd (pop_item loads s d))) = table d)
       \<and> (xs \<noteq> [] \<longrightarrow>
            fst (pop_item loads s d) = Inr (Some (last xs))
          \<and> fst (get_items loads (fst (snd (pop_item loads s d))) None
                   (snd (snd (pop_item loads s d)))) = Inr (butlast xs)
          \<and> (\<exists>m. m \<in> set (rows_of (session_id s) (table d))
                 \<and> list_all (\<lambda>r. idx r \<le> idx m) (rows_of (session_id s) (table d))
                 \<and> loads (payload m) = last xs
                 \<and> table (snd (snd (pop_item loads s d))) = remove1 m (table d))
          \<and> (distinct xs \<longrightarrow> last xs \<notin> set (butlast xs)))"
proof -
  let ?sid = "session_id s"
  let ?t = "table d"
  let ?d0 = "d\<lparr>stmt_log := stmt_log d @ [(DeleteLastReturning, [AText ?sid])]\<rparr>"
  let ?s1 = "snd (pool_acquire s)"
  have pk: "distinct (map (\<lambda>r. (row_session_id r, idx r)) ?t)"
    using assms(2) by (simp add: db_inv_def)
  have vsid: "valid_text ?sid" using assms(1,3) by (rule get_items_None_text)
  have xs: "xs = map loads (map payload (select_rows ?sid ?t))"
    using assms(3) by (simp add: get_items_None[OF assms(1) vsid])
  have ok1: "pool_ok ?s1" using assms(1) by (rule pool_acquire_ok)
  have sid1: "session_id ?s1 = ?sid" by (rule pool_acquire_sid)
  have vsid1: "valid_text (session_id ?s1)" using vsid by (simp only: sid1)
  show ?thesis
  proof (cases "rows_of ?sid ?t = []")
    case True
    then have "xs = []" by (simp add: xs select_rows_def)
    moreover have "delete_last ?sid ?d0 = (Inr [], ?d0)"
      using last_ctid_None[OF True] by (simp add: delete_last_def)
    ultimately show ?thesis by (simp add: pop_item_run[OF assms(1) vsid])
  next
    case False
    then have sne: "select_rows ?sid ?t \<noteq> []"
      unfolding select_rows_def by (metis length_0_conv length_sort)
    then have xne: "xs \<noteq> []" by (simp add: xs)
    obtain c where c: "last_ctid ?sid ?t = Some c" using last_ctid_Some_ex[OF False] by blast
    note lc = last_ctid_Some[OF c]
    let ?m = "?t ! c"
    have lt: "c < length ?t" using lc by simp
    have m: "?m \<in> set (rows_of ?sid ?t)" using lc by (simp add: rows_of_def)
    have mx: "\<forall>r\<in>set (rows_of ?sid ?t). idx r \<le> idx ?m" using lc by simp
    have dt: "distinct ?t" using pk by (simp add: distinct_map)
    have rm: "take c ?t @ drop (Suc c) ?t = remove1 ?m ?t"
      using remove1_nth_distinct[OF dt lt] .
    have del: "delete_last ?sid ?d0 = (Inr [payload ?m], ?d0\<lparr>table := remove1 ?m ?t\<rparr>)"
      using delete_last_Some[of ?sid ?d0 c] c rm by simp
    note sel = select_rows_remove_max[OF pk m mx]
    have lastxs: "last xs = loads (payload ?m)"
      using sel sne by (simp add: xs last_map)
    have pop: "pop_item loads s d = (Inr (Some (loads (payload ?m))), ?s1,
                                      ?d0\<lparr>table := remove1 ?m ?t\<rparr>)"
      by (simp add: pop_item_run[OF assms(1) vsid] del)
    have after: "fst (get_items loads ?s1 None (?d0\<lparr>table := remove1 ?m ?t\<rparr>)) = Inr (butlast xs)"
      using sel by (simp add: get_items_None[OF ok1 vsid1] sid1 xs map_butlast)
    have dist: "distinct xs \<longrightarrow> last xs \<notin> set (butlast xs)"
      using xne by (metis append_butlast_last_id distinct_append disjoint_iff list.set_intros(1))
    have ex: "\<exists>m. m \<in> set (rows_of ?sid ?t)
                 \<and> list_all (\<lambda>r. idx r \<le> idx m) (rows_of ?sid ?t)
                 \<and> loads (payload m) = last xs
                 \<and> table (snd (snd (pop_item loads s d))) = remove1 m ?t"
      using m mx lastxs pop by (intro exI[of _ ?m]) (simp add: list_all_iff)
    show ?thesis using xne lastxs pop after dist ex by simp
  qed
qed

theorem pop_item_removes_last_witness:
  "fst (pop_item ex_loads ex_A ex_d3) = Inr (Some ''Q2'')
   \<and> fst (get_items ex_loads (fst (snd (pop_item ex_loads ex_A ex_d3))) None
           (snd (snd (pop_item ex_loads ex_A ex_d3)))) = Inr [''Q1'', ''A1'']"
  using pop_item_removes_last [OF ex_A_ok ex_d3_inv ex_d3_items] by simp

subsection \<open>Sessions do not interfere\<close>

lemma rows_of_other_cleared:
  "b \<noteq> a \<Longrightarrow> rows_of b (filter (\<lambda>r. row_session_id r \<noteq> a) t) = rows_of b t"
  by (induction t) (auto simp: rows_of_def)

lemma rows_of_drop_nth:
  assumes "c < length t" and "row_session_id (t ! c) \<noteq> b"
  shows "rows_of b (take c t @ drop (Suc c) t) = rows_of b t"
proof -
  have "rows_of b t = rows_of b (take c t @ t ! c # drop (Suc c) t)"
    using id_take_nth_drop[OF assms(1)] by simp
  then show ?thesis using assms(2) by (simp add: rows_of_def)
qed

lemma insert_turn_frame:
  "b \<noteq> a \<Longrightarrow> rows_of b (table (snd (insert_turn a j d))) = rows_of b (table d)"
  by (simp add: insert_turn_def nextval_def rows_of_def split: option.splits)

lemma delete_last_frame:
  assumes "b \<noteq> a"
  shows "rows_of b (table (snd (delete_last a d))) = rows_of b (table d)"
proof (cases "last_ctid a (table d)")
  case None
  then show ?thesis by (simp add: delete_last_def)
next
  case (Some c)
  note lc = last_ctid_Some[OF Some]
  have "row_session_id (table d ! c) \<noteq> b" using lc assms by simp
  then show ?thesis using lc by (simp add: delete_last_Some[OF Some] rows_of_drop_nth)
qed

lemma pg_run_frame:
  assumes "b \<noteq> a"
  shows "rows_of b (table (snd (pg_run q (AText a # rest) d))) = rows_of b (table d)"
  using assms
  by (cases "(q, AText a # rest, d)" rule: pg_run.cases)
     (auto simp: insert_turn_frame delete_last_frame rows_of_other_cleared)

lemma pg_execute_frame:
  assumes "b \<noteq> a"
  shows "rows_of b (table (snd (pg_execute q (AText a # rest) d))) = rows_of b (table d)"
  using pg_run_frame[OF assms, of q rest "d\<lparr>stmt_log := stmt_log d @ [(q, AText a # rest)]\<rparr>"]
  by (simp add: pg_execute_def Let_def)

lemma exec_each_frame:
  assumes "b \<noteq> a"
  shows "rows_of b (table (snd (exec_each q (map (\<lambda>j. [AText a, AText j]) js) d)))
           = rows_of b (table d)"
proof (induction js arbitrary: d)
  case Nil
  then show ?case by simp
next
  case (Cons j js)
  obtain r d1 where e: "pg_execute q [AText a, AText j] d = (r, d1)"
    by (cases "pg_execute q [AText a, AText j] d")
  have f: "rows_of b (table d1) = rows_of b (table d)"
    using pg_execute_frame[OF assms, of q "[AText j]" d] e by simp
  show ?case using Cons.IH[of d1] f e by (cases r) simp_all
qed

lemma get_items_frame:
  "table (snd (snd (get_items loads s limit d))) = table d"
proof -
  have "table (snd (pg_execute (SelectPayloads h) args d)) = table d" for h args
    by (cases "(SelectPayloads h, args, d\<lparr>stmt_log := stmt_log d @ [(SelectPayloads h, args)]\<rparr>)"
          rule: pg_run.cases)
       (auto simp: pg_execute_def Let_def)
  then show ?thesis
    by (auto simp: get_items_def get_items_sql_def pool_fetch_def Let_def case_prod_beta
        split: sum.splits prod.splits)
qed

lemma add_items_frame:
  assumes "b \<noteq> session_id s"
  shows "rows_of b (table (snd (snd (add_items dumps s items d)))) = rows_of b (table d)"
proof -
  have m: "map (\<lambda>item. [AText (session_id s), AText (dumps item)]) items
             = map (\<lambda>j. [AText (session_id s), AText j]) (map dumps items)"
    by simp
  show ?thesis
    using exec_each_frame[OF assms, of InsertTurn "map dumps items" d]
    by (simp add: add_items_def pool_executemany_def Let_def case_prod_beta pool_acquire_sid m
        split: sum.splits prod.splits)
qed

lemma pop_item_frame:
  assumes "b \<noteq> session_id s"
  shows "rows_of b (table (snd (snd (pop_item loads s d)))) = rows_of b (table d)"
  using pg_execute_frame[OF assms, of DeleteLastReturning "[]" d]
  by (simp add: pop_item_def conn_fetchrow_def Let_def case_prod_beta pool_acquire_sid
      split: sum.splits prod.splits)

lemma clear_session_frame:
  assumes "b \<noteq> session_id s"
  shows "rows_of b (table (snd (snd (clear_session s d)))) = rows_of b (table d)"
  using pg_execute_frame[OF assms, of DeleteSession "[]" d]
  by (simp add: clear_session_def pool_execute_def Let_def case_prod_beta pool_acquire_sid
      split: sum.splits prod.splits)

lemma map_snd_insort_key:
  "map snd (insort_key (\<lambda>cr. f (snd cr)) x xs) = insort_key f (snd x) (map snd xs)"
  by (induction xs) simp_all

lemma map_snd_sort_key:
  "map snd (sort_key (\<lambda>cr. f (snd cr)) xs) = sort_key f (map snd xs)"
  by (induction xs) (simp_all add: map_snd_insort_key)

lemma delete_last_result:
  "fst (delete_last sid d) =
     Inr (case sort_key (\<lambda>r. - idx r) (rows_of sid (table d)) of
            [] \<Rightarrow> [] | r # _ \<Rightarrow> [payload r])"
proof -
  let ?F = "filter (\<lambda>cr. row_session_id (snd cr) = sid) (enumerate 0 (table d))"
  let ?S = "sort_key (\<lambda>cr. - idx (snd cr)) ?F"
  have ms: "map snd ?S = sort_key (\<lambda>r. - idx r) (rows_of sid (table d))"
    using map_snd_sort_key[of "\<lambda>r. - idx r" ?F] by (simp add: rows_of_enumerate)
  show ?thesis
  proof (cases ?S)
    case Nil
    then have "last_ctid sid (table d) = None" by (simp add: last_ctid_def)
    then show ?thesis using ms Nil by (simp add: delete_last_def)
  next
    case (Cons cr rest)
    then have lc: "last_ctid sid (table d) = Some (fst cr)" by (simp add: last_ctid_def)
    have "cr \<in> set ?S" using Cons by simp
    then have "cr \<in> set (enumerate 0 (table d))" by simp
    then have sn: "snd cr = table d ! fst cr" by (simp add: in_set_enumerate_eq)
    have "sort_key (\<lambda>r. - idx r) (rows_of sid (table d)) = snd cr # map snd rest"
      using ms Cons by simp
    then show ?thesis using sn by (simp add: delete_last_Some[OF lc])
  qed
qed

lemma get_items_result:
  "fst (get_items loads s limit d) =
     (if closed (fst (pool_acquire s)) then Inl PoolClosed
      else case limit of
             None \<Rightarrow>
               if \<not> valid_text (session_id s) then Inl NulInText
               else Inr (map loads (map payload (select_rows (session_id s) (table d))))
           | Some n \<Rightarrow>
               if n = 0 then Inl (WrongArgCount 1 2)
               else if \<not> in_int8 n then Inl Int8OutOfRange
               else if \<not> valid_text (session_id s) then Inl NulInText
               else if n < 0 then Inl NegativeLimit
               else Inr (map loads (map payload
                      (take (nat n) (select_rows (session_id s) (table d))))))"
  by (cases limit)
     (simp_all add: get_items_def get_items_sql_def get_items_args_def truthy_def pool_fetch_def
        pg_execute_def Let_def case_prod_beta pool_acquire_sid)

text \<open>
  A limit outside the 64-bit range raises in the driver, and a session identifier with
  U+0000 raises in the store, on every operation that reaches it.
\<close>

lemma get_items_limit_out_of_range:
  assumes "pool_ok s" and "\<not> in_int8 n"
  shows "fst (get_items loads s (Some n) d) = Inl Int8OutOfRange"
proof -
  have "n \<noteq> 0" using assms(2) by (auto simp: in_int8_def int8_max_def)
  then show ?thesis
    using pool_acquire_open[OF assms(1)] assms(2) by (simp add: get_items_result)
qed

lemma clear_session_nul_session:
  assumes "pool_ok s" and "\<not> valid_text (session_id s)"
  shows "fst (clear_session s d) = Inl NulInText
       \<and> table (snd (snd (clear_session s d))) = table d"
  using pool_acquire_open[OF assms(1)] assms(2)
  by (simp add: clear_session_def pool_execute_def pg_execute_def Let_def case_prod_beta
      pool_acquire_sid)

lemma get_items_reads_own:
  assumes "rows_of (session_id s) (table d2) = rows_of (session_id s) (table d)"
  shows "fst (get_items loads s limit d2) = fst (get_items loads s limit d)"
proof -
  have "select_rows (session_id s) (table d2) = select_rows (session_id s) (table d)"
    using assms by (simp add: select_rows_def)
  then show ?thesis by (simp only: get_items_result)
qed

lemma pop_item_result:
  "fst (pop_item loads s d) =
     (if closed (fst (pool_acquire s)) then Inl PoolClosed
      else if \<not> valid_text (session_id s) then Inl NulInText
      else Inr (map_option loads
                 (case sort_key (\<lambda>r. - idx r) (rows_of (session_id s) (table d)) of
                    [] \<Rightarrow> None | r # _ \<Rightarrow> Some (payload r))))"
proof -
  let ?d0 = "d\<lparr>stmt_log := stmt_log d @ [(DeleteLastReturning, [AText (session_id s)])]\<rparr>"
  obtain r d1 where dl: "delete_last (session_id s) ?d0 = (r, d1)"
    by (cases "delete_last (session_id s) ?d0")
  have r: "r = Inr (case sort_key (\<lambda>r. - idx r) (rows_of (session_id s) (table d)) of
                      [] \<Rightarrow> [] | r # _ \<Rightarrow> [payload r])"
    using delete_last_result[of "session_id s" ?d0] dl by simp
  show ?thesis
    by (simp add: pop_item_def conn_fetchrow_def pg_execute_def Let_def case_prod_beta
        pool_acquire_sid dl r split: list.splits)
qed

lemma pop_item_reads_own:
  assumes "rows_of (session_id s) (table d2) = rows_of (session_id s) (table d)"
  shows "fst (pop_item loads s d2) = fst (pop_item loads s d)"
  using assms by (simp only: pop_item_result)

lemma ex_ab_rows_B:
  "rows_of ''B'' (table ex_ab) = [\<lparr>row_session_id = ''B'', idx = 4, payload = ex_dumps ''B1''\<rparr>]"
  by code_simp

lemma ex_ab_rows_A: "rows_of (session_id ex_A) (table ex_ab) = rows_of (session_id ex_A) (table ex_d3)"
  by code_simp

text \<open>
  C4. Let \<open>b\<close> be a session identifier other than the handle's. Whatever the state of
  the handle and of the table, each of \<open>get_items\<close>, \<open>add_items\<close>, \<open>pop_item\<close>
  and \<open>clear_session\<close> leaves the rows of \<open>b\<close> exactly as they were, whether it
  succeeds or raises. And what \<open>get_items\<close> and \<open>pop_item\<close> return depends on the
  rows of the handle's own session only: on two tables that hold the same rows for that
  session they return the same, whatever the other rows are.
\<close>

theorem session_isolation:
  assumes "b \<noteq> session_id s"
  shows "rows_of b (table (snd (snd (get_items loads s limit d)))) = rows_of b (table d)
       \<and> rows_of b (table (snd (snd (add_items dumps s items d)))) = rows_of b (table d)
       \<and> rows_of b (table (snd (snd (pop_item loads s d)))) = rows_of b (table d)
       \<and> rows_of b (table (snd (snd (clear_session s d)))) = rows_of b (table d)
       \<and> (rows_of (session_id s) (table d2) = rows_of (session_id s) (table d)
            \<longrightarrow> fst (get_items loads s limit d2) = fst (get_items loads s limit d)
              \<and> fst (pop_item loads s d2) = fst (pop_item loads s d))"
proof -
  have "rows_of b (table (snd (snd (get_items loads s limit d)))) = rows_of b (table d)"
    by (simp only: get_items_frame)
  moreover have "rows_of b (table (snd (snd (add_items dumps s items d)))) = rows_of b (table d)"
    using assms by (rule add_items_frame)
  moreover have "rows_of b (table (snd (snd (pop_item loads s d)))) = rows_of b (table d)"
    using assms by (rule pop_item_frame)
  moreover have "rows_of b (table (snd (snd (clear_session s d)))) = rows_of b (table d)"
    using assms by (rule clear_session_frame)
  moreover have "rows_of (session_id s) (table d2) = rows_of (session_id s) (table d)
            \<longrightarrow> fst (get_items loads s limit d2) = fst (get_items loads s limit d)
              \<and> fst (pop_item loads s d2) = fst (pop_item loads s d)"
    using get_items_reads_own[of s d2 d loads limit] pop_item_reads_own[of s d2 d loads]
    by blast
  ultimately show ?thesis by blast
qed

theorem session_isolation_witness:
  "rows_of ''B'' (table (snd (snd (clear_session ex_A ex_ab))))
     = [\<lparr>row_session_id = ''B'', idx = 4, payload = ex_dumps ''B1''\<rparr>]
   \<and> rows_of ''B'' (table (snd (snd (pop_item ex_loads ex_A ex_ab))))
     = [\<lparr>row_session_id = ''B'', idx = 4, payload = ex_dumps ''B1''\<rparr>]
   \<and> rows_of ''B'' (table (snd (snd (add_items ex_dumps ex_A [''Q3''] ex_ab))))
     = [\<lparr>row_session_id = ''B'', idx = 4, payload = ex_dumps ''B1''\<rparr>]
   \<and> fst (get_items ex_loads ex_A None ex_ab) = Inr [''Q1'', ''A1'', ''Q2'']"
proof -
  have ne: "''B'' \<noteq> session_id ex_A" by (simp add: ex_A_sid)
  note iso = session_isolation [OF ne, of ex_loads None ex_ab ex_dumps "[''Q3'']" ex_d3]
  have "fst (get_items ex_loads ex_A None ex_ab) = fst (get_items ex_loads ex_A None ex_d3)"
    using session_isolation [OF ne, of ex_loads None ex_d3 ex_dumps "[''Q3'']" ex_ab] ex_ab_rows_A
    by simp
  then show ?thesis using iso by (simp add: ex_ab_rows_B ex_d3_items)
qed

subsection \<open>The sequence behind \<open>idx\<close>\<close>

lemma seq_inv_log [simp]: "seq_inv (d\<lparr>stmt_log := l\<rparr>) = seq_inv d"
  by (simp add: seq_inv_def)

lemma seq_ext_log [simp]: "seq_ext (d\<lparr>stmt_log := l\<rparr>) d' = seq_ext d d'"
  by (simp add: seq_ext_def)

lemma seq_ext_log2 [simp]: "seq_ext d (d'\<lparr>stmt_log := l\<rparr>) = seq_ext d d'"
  by (simp add: seq_ext_def)

lemma seq_ext_refl: "seq_inv d \<Longrightarrow> seq_ext d d"
  by (simp add: seq_ext_def list_all_iff)

lemma seq_ext_trans:
  assumes "seq_ext d d1" and "seq_ext d1 d2"
  shows "seq_ext d d2"
proof -
  have "take (length (issued d)) (issued d1) = issued d"
    and t2: "take (length (issued d1)) (issued d2) = issued d1"
    using assms by (simp_all add: seq_ext_def)
  then have "take (length (issued d)) (take (length (issued d1)) (issued d2)) = issued d"
    by simp
  moreover have "length (issued d) \<le> length (issued d1)"
    using \<open>take (length (issued d)) (issued d1) = issued d\<close>
    by (metis length_take min.cobounded2 min.commute)
  ultimately have tk: "take (length (issued d)) (issued d2) = issued d"
    by (simp add: min_def)
  have "list_all (\<lambda>r. r \<in> set (table d) \<or> seq_next d \<le> idx r) (table d2)"
    using assms by (fastforce simp: seq_ext_def list_all_iff)
  then show ?thesis using assms tk by (simp add: seq_ext_def)
qed

lemma seq_ext_subtable:
  assumes "seq_inv d" and "sorted_wrt (<) (map idx t')" and "set t' \<subseteq> set (table d)"
  shows "seq_ext d (d\<lparr>table := t'\<rparr>)"
  using assms by (auto simp: seq_ext_def seq_inv_def list_all_iff)

lemma enumerate_filter_subset: "set (map snd (filter P (enumerate n t))) \<subseteq> set t"
  by (auto simp: in_set_enumerate_eq)

lemma enumerate_filter_sorted:
  "sorted_wrt R (map f t) \<Longrightarrow> sorted_wrt R (map f (map snd (filter P (enumerate n t))))"
proof (induction t arbitrary: n)
  case Nil
  then show ?case by simp
next
  case (Cons a t)
  have "set (map snd (filter P (enumerate (Suc n) t))) \<subseteq> set t"
    by (rule enumerate_filter_subset)
  then show ?case using Cons by auto
qed

lemma nextval_seq:
  assumes "seq_inv d"
  shows "seq_ext d (snd (nextval d))"
proof -
  have "sorted_wrt (<) (issued d @ [seq_next d])"
    using assms by (auto simp: seq_inv_def sorted_wrt_append list_all_iff)
  then show ?thesis
    using assms by (auto simp: nextval_def seq_ext_def seq_inv_def list_all_iff)
qed

lemma insert_turn_seq:
  assumes "seq_inv d"
  shows "seq_ext d (snd (insert_turn a j d))"
proof (cases "jsonb_in d j")
  case None
  then show ?thesis using assms by (simp add: insert_turn_def seq_ext_refl)
next
  case (Some doc)
  show ?thesis
  proof (cases "seq_next d > int4_max")
    case True
    then show ?thesis
      using assms Some by (simp add: insert_turn_def nextval_def seq_ext_refl)
  next
    case False
    let ?d1 = "d\<lparr>seq_next := seq_next d + 1, issued := issued d @ [seq_next d]\<rparr>"
    have nv: "nextval d = (Inr (seq_next d), ?d1)" using False by (simp add: nextval_def)
    have e1: "seq_ext d ?d1" using nextval_seq[OF assms] nv by simp
    let ?r = "\<lparr>row_session_id = a, idx = seq_next d, payload = doc\<rparr>"
    have below: "\<forall>r\<in>set (table d). idx r < seq_next d"
      using assms by (auto simp: seq_inv_def list_all_iff)
    have "sorted_wrt (<) (map idx (table d @ [?r]))"
      using assms below by (auto simp: seq_inv_def sorted_wrt_append)
    then have e2: "seq_ext d (?d1\<lparr>table := table d @ [?r]\<rparr>)"
      using e1 by (auto simp: seq_ext_def seq_inv_def list_all_iff)
    show ?thesis using e1 e2 Some by (simp add: insert_turn_def nv)
  qed
qed

lemma delete_last_seq:
  assumes "seq_inv d"
  shows "seq_ext d (snd (delete_last a d))"
proof (cases "last_ctid a (table d)")
  case None
  then show ?thesis using assms by (simp add: delete_last_def seq_ext_refl)
next
  case (Some c)
  let ?t = "map snd (filter (\<lambda>cr. fst cr \<noteq> c) (enumerate 0 (table d)))"
  have "sorted_wrt (<) (map idx ?t)"
    using assms by (intro enumerate_filter_sorted) (simp add: seq_inv_def)
  moreover have "set ?t \<subseteq> set (table d)" by (rule enumerate_filter_subset)
  ultimately show ?thesis using seq_ext_subtable[OF assms] Some by (simp add: delete_last_def)
qed

lemma delete_session_seq:
  assumes "seq_inv d"
  shows "seq_ext d (d\<lparr>table := filter (\<lambda>r. row_session_id r \<noteq> a) (table d)\<rparr>)"
proof -
  have "sorted_wrt (<) (map idx (filter (\<lambda>r. row_session_id r \<noteq> a) (table d)))"
    using assms by (simp add: seq_inv_def sorted_wrt_map sorted_wrt_filter)
  then show ?thesis using seq_ext_subtable[OF assms] by simp
qed

lemma pg_run_seq:
  assumes "seq_inv d"
  shows "seq_ext d (snd (pg_run q args d))"
  using assms
  by (cases "(q, args, d)" rule: pg_run.cases)
     (simp_all add: seq_ext_refl insert_turn_seq delete_last_seq delete_session_seq)

lemma pg_execute_seq:
  assumes "seq_inv d"
  shows "seq_ext d (snd (pg_execute q args d))"
  using pg_run_seq[of "d\<lparr>stmt_log := stmt_log d @ [(q, args)]\<rparr>" q args] assms
  by (simp add: pg_execute_def Let_def seq_ext_refl)

lemma seq_ext_inv: "seq_ext d d' \<Longrightarrow> seq_inv d'"
  by (simp add: seq_ext_def)

lemma exec_each_seq:
  assumes "seq_inv d"
  shows "seq_ext d (snd (exec_each q argss d))"
  using assms
proof (induction argss arbitrary: d)
  case Nil
  then show ?case by (simp add: seq_ext_refl)
next
  case (Cons args argss)
  obtain r d1 where e: "pg_execute q args d = (r, d1)" by (cases "pg_execute q args d")
  have e1: "seq_ext d d1" using pg_execute_seq[OF Cons.prems, of q args] e by simp
  show ?case
  proof (cases r)
    case (Inl err)
    then show ?thesis using e e1 by simp
  next
    case (Inr x)
    have "seq_ext d1 (snd (exec_each q argss d1))"
      using Cons.IH seq_ext_inv[OF e1] by simp
    then show ?thesis using e Inr e1 seq_ext_trans by simp
  qed
qed

lemma rollback_seq:
  assumes "seq_inv d" and "seq_ext d d1"
  shows "seq_ext d (d1\<lparr>table := table d\<rparr>)"
proof -
  have tk: "take (length (issued d)) (issued d1) = issued d"
    using assms(2) by (simp add: seq_ext_def)
  have sub: "set (issued d) \<subseteq> set (issued d1)" using tk by (metis set_take_subset)
  have "list_all (\<lambda>r. idx r \<in> set (issued d1)) (table d)"
    using assms(1) sub by (auto simp: seq_inv_def list_all_iff)
  then show ?thesis
    using assms by (simp add: seq_ext_def seq_inv_def list_all_iff)
qed

lemma pool_executemany_seq:
  assumes "seq_inv d"
  shows "seq_ext d (snd (pool_executemany p q argss d))"
proof -
  note e = exec_each_seq[OF assms, of q argss]
  show ?thesis
    using e rollback_seq[OF assms e] assms
    by (simp add: pool_executemany_def seq_ext_refl case_prod_beta split: sum.splits)
qed

lemma add_items_seq:
  assumes "seq_inv d"
  shows "seq_ext d (snd (snd (add_items dumps s items d)))"
  using pool_executemany_seq[OF assms] assms
  by (simp add: add_items_def Let_def case_prod_beta seq_ext_refl)

lemma pop_item_seq:
  assumes "seq_inv d"
  shows "seq_ext d (snd (snd (pop_item loads s d)))"
  using pg_execute_seq[OF assms, of DeleteLastReturning] assms
  by (simp add: pop_item_def conn_fetchrow_def Let_def case_prod_beta seq_ext_refl
      split: sum.splits)

lemma clear_session_seq:
  assumes "seq_inv d"
  shows "seq_ext d (snd (snd (clear_session s d)))"
  using pg_execute_seq[OF assms, of DeleteSession] assms
  by (simp add: clear_session_def pool_execute_def Let_def case_prod_beta seq_ext_refl
      split: sum.splits)

lemma call_db_seq:
  assumes "seq_inv d"
  shows "seq_ext d (call_db dumps loads s c d)"
  using assms
  by (cases c) (simp_all add: call_db_def add_items_seq pop_item_seq clear_session_seq)

lemma run_history_seq:
  assumes "seq_inv d"
  shows "seq_ext d (run_history dumps loads h d)"
  using assms
proof (induction h arbitrary: d)
  case Nil
  then show ?case by (simp add: seq_ext_refl)
next
  case (Cons sc h)
  let ?d1 = "call_db dumps loads (fst sc) (snd sc) d"
  have e1: "seq_ext d ?d1" using Cons.prems by (rule call_db_seq)
  have "seq_ext ?d1 (run_history dumps loads h ?d1)"
    using Cons.IH seq_ext_inv[OF e1] by simp
  then show ?case using e1 seq_ext_trans by simp
qed

lemma ensure_schema_seq: "seq_inv (ensure_schema ex_jsonb None)"
  by (simp add: seq_inv_def ensure_schema_def)

lemma ex_history_run:
  "issued (run_history ex_dumps ex_loads ex_history (ensure_schema ex_jsonb None)) = [1, 2, 3, 4]
   \<and> map idx (table (run_history ex_dumps ex_loads ex_history (ensure_schema ex_jsonb None))) = [3, 4]
   \<and> map row_session_id (table (run_history ex_dumps ex_loads ex_history (ensure_schema ex_jsonb None)))
       = [''B'', ''A'']"
  by code_simp

text \<open>
  C5. Start from a database that satisfies \<open>seq_inv\<close> (the empty table does) and run
  any history of \<open>add_items\<close>, \<open>pop_item\<close> and \<open>clear_session\<close> calls, through any
  handles, on any sessions, failing calls included. Then the values the sequence has
  handed out are strictly increasing, so none was handed out twice; the values handed
  out before the history are their first ones and all lie below the value the sequence
  stood at, while every row the history added carries a value at or above it, so a value
  is not used again after its row was deleted. The rows of each session, in the order
  they were inserted, carry strictly increasing values. Gaps may occur: a deleted row's
  value stays handed out.
\<close>

theorem sequence_never_reused:
  assumes "seq_inv d"
  shows "sorted_wrt (<) (issued (run_history dumps loads h d))
       \<and> distinct (issued (run_history dumps loads h d))
       \<and> take (length (issued d)) (issued (run_history dumps loads h d)) = issued d
       \<and> list_all (\<lambda>v. v < seq_next d) (issued d)
       \<and> list_all (\<lambda>r. r \<in> set (table d) \<or> seq_next d \<le> idx r)
            (table (run_history dumps loads h d))
       \<and> list_all (\<lambda>r. idx r \<in> set (issued (run_history dumps loads h d)))
            (table (run_history dumps loads h d))
       \<and> sorted_wrt (<) (map idx (rows_of sid (table (run_history dumps loads h d))))
       \<and> seq_inv (run_history dumps loads h d)"
proof -
  let ?d' = "run_history dumps loads h d"
  have e: "seq_ext d ?d'" using assms by (rule run_history_seq)
  then have inv: "seq_inv ?d'" by (rule seq_ext_inv)
  have s: "sorted_wrt (<) (issued ?d')" using inv by (simp add: seq_inv_def)
  then have di: "distinct (issued ?d')" using strict_sorted_iff by blast
  have "sorted_wrt (<) (map idx (table ?d'))" using inv by (simp add: seq_inv_def)
  then have "sorted_wrt (<) (map idx (rows_of sid (table ?d')))"
    by (simp add: rows_of_def sorted_wrt_map sorted_wrt_filter)
  then show ?thesis using e inv s di assms by (simp add: seq_ext_def seq_inv_def)
qed

theorem sequence_never_reused_witness:
  "sorted_wrt (<) (issued (run_history ex_dumps ex_loads ex_history (ensure_schema ex_jsonb None)))
   \<and> distinct (issued (run_history ex_dumps ex_loads ex_history (ensure_schema ex_jsonb None)))
   \<and> issued (run_history ex_dumps ex_loads ex_history (ensure_schema ex_jsonb None)) = [1, 2, 3, 4]
   \<and> map idx (table (run_history ex_dumps ex_loads ex_history (ensure_schema ex_jsonb None))) = [3, 4]"
  using sequence_never_reused [OF ensure_schema_seq, of ex_dumps ex_loads ex_history "''A''"]
    ex_history_run
  by blast

subsection \<open>Two callers acquire the pool\<close>

lemma acq_alone:
  "pool_heap (acq_run dn [0, 0] (acq_init 1)) = [fst (pool_acquire (PostgreSQLSession sid dn))]
   \<and> callers (acq_run dn [0, 0] (acq_init 1)) = [AcqDone 0]"
  by (simp add: acq_step_def acq_init_def pool_acquire_def PostgreSQLSession_def Let_def)

text \<open>
  C9. Two callers use a fresh handle. With the schedule \<open>[0, 1, 0, 1]\<close> the second
  caller tests \<open>self._pool\<close> while the first is suspended in \<open>create_pool\<close>: both
  find no pool, both create one, so two pools exist, the callers return different
  pools, and the handle keeps the second. With the schedule \<open>[0, 0, 1]\<close>, where the
  first caller returns before the second starts, one pool is created and both return it.
\<close>

theorem pool_acquire_race:
  "length (pool_heap (acq_run dn [0, 1, 0, 1] (acq_init 2))) = 2
   \<and> callers (acq_run dn [0, 1, 0, 1] (acq_init 2)) = [AcqDone 0, AcqDone 1]
   \<and> self_pool (acq_run dn [0, 1, 0, 1] (acq_init 2)) = Some 1
   \<and> length (pool_heap (acq_run dn [0, 0, 1] (acq_init 2))) = 1
   \<and> callers (acq_run dn [0, 0, 1] (acq_init 2)) = [AcqDone 0, AcqDone 0]"
  by (simp add: acq_step_def acq_init_def Let_def numeral_2_eq_2)

end
